theory Spec2Isabelle
  imports Main "HOL-Library.AList"
begin

section \<open>Python strings\<close>

text \<open>
  A Python \<open>str\<close> is modelled as a \<^typ>\<open>string\<close>, each \<^typ>\<open>char\<close> read as one code
  point in the range U+0000..U+00FF.  The character classes below are the ones the
  interpreter uses on that range: \<open>\s\<close> and \<open>str.strip()\<close> share one whitespace set,
  \<open>\d\<close> is the ten ASCII digits, and under \<open>re.IGNORECASE\<close> an ASCII letter of a
  pattern matches its two cases.
\<close>

definition LF :: char where
  "LF = CHR 0x0A"

definition CR :: char where
  "CR = CHR 0x0D"

definition is_space :: "char \<Rightarrow> bool" where
  "is_space c \<longleftrightarrow> c \<in> set [CHR 0x09, CHR 0x0A, CHR 0x0B, CHR 0x0C, CHR 0x0D,
     CHR 0x1C, CHR 0x1D, CHR 0x1E, CHR 0x1F, CHR 0x20, CHR 0x85, CHR 0xA0]"

definition is_digit :: "char \<Rightarrow> bool" where
  "is_digit c \<longleftrightarrow> c \<in> set ''0123456789''"

definition is_linebreak :: "char \<Rightarrow> bool" where
  "is_linebreak c \<longleftrightarrow> c \<in> set [CHR 0x0A, CHR 0x0B, CHR 0x0C, CHR 0x0D,
     CHR 0x1C, CHR 0x1D, CHR 0x1E, CHR 0x85]"

text \<open>\<open>s.strip()\<close>\<close>

definition strip :: "string \<Rightarrow> string" where
  "strip s = rev (dropWhile is_space (rev (dropWhile is_space s)))"

text \<open>\<open>s.strip(c)\<close> for a single character \<open>c\<close>\<close>

definition strip_char :: "char \<Rightarrow> string \<Rightarrow> string" where
  "strip_char c s = rev (dropWhile (\<lambda>x. x = c) (rev (dropWhile (\<lambda>x. x = c) s)))"

text \<open>\<open>sep.join(xs)\<close>\<close>

fun join :: "string \<Rightarrow> string list \<Rightarrow> string" where
  "join sep [] = []"
| "join sep [x] = x"
| "join sep (x # y # ys) = x @ sep @ join sep (y # ys)"

text \<open>\<open>s[a:b]\<close> for indices \<open>0 \<le> a\<close>, \<open>0 \<le> b\<close>\<close>

definition slice :: "string \<Rightarrow> nat \<Rightarrow> nat \<Rightarrow> string" where
  "slice s a b = take (b - a) (drop a s)"

text \<open>\<open>s.split(c)\<close> for a single character \<open>c\<close>: never the empty list\<close>

fun split_on :: "char \<Rightarrow> string \<Rightarrow> string list" where
  "split_on c [] = [[]]"
| "split_on c (x # s) =
     (if x = c then [] # split_on c s
      else (case split_on c s of [] \<Rightarrow> [[x]] | p # ps \<Rightarrow> (x # p) # ps))"

text \<open>
  \<open>s.splitlines()\<close>: the text is cut after every line boundary, \<open>\r\n\<close> counting as
  one, the boundaries are removed, and a text that ends in a boundary has no empty last
  line.
\<close>

fun splitlines_from :: "string \<Rightarrow> string \<Rightarrow> string list" where
  "splitlines_from cur [] = (if cur = [] then [] else [cur])"
| "splitlines_from cur (x # s) =
     (if is_linebreak x
      then cur # splitlines_from [] (if x = CR \<and> s \<noteq> [] \<and> hd s = LF then tl s else s)
      else splitlines_from (cur @ [x]) s)"

definition splitlines :: "string \<Rightarrow> string list" where
  "splitlines s = splitlines_from [] s"

text \<open>\<open>s.startswith(p)\<close>, and the same with the letters compared case-insensitively\<close>

fun startswith :: "string \<Rightarrow> string \<Rightarrow> bool" where
  "startswith s [] = True"
| "startswith [] (p # ps) = False"
| "startswith (x # s) (p # ps) = (x = p \<and> startswith s ps)"

definition ascii_lower :: "char \<Rightarrow> char" where
  "ascii_lower c =
     (case List.find (\<lambda>(u, l). u = c)
             (zip ''ABCDEFGHIJKLMNOPQRSTUVWXYZ'' ''abcdefghijklmnopqrstuvwxyz'') of
        Some (u, l) \<Rightarrow> l
      | None \<Rightarrow> c)"

fun startswith_ci :: "string \<Rightarrow> string \<Rightarrow> bool" where
  "startswith_ci s [] = True"
| "startswith_ci [] (p # ps) = False"
| "startswith_ci (x # s) (p # ps) = (ascii_lower x = ascii_lower p \<and> startswith_ci s ps)"

section \<open>section\_extractor.py\<close>

subsection \<open>The two marker patterns\<close>

text \<open>
  \<open>\d+(?:\.\d+)*\<close> read from a text whose first character is a digit: digits are
  taken greedily, a dot is taken only when a digit follows it.  The result is the
  matched number and the text after it.
\<close>

fun scan_number :: "string \<Rightarrow> string \<times> string" where
  "scan_number [] = ([], [])"
| "scan_number (c # s) =
     (if is_digit c \<or> (c = CHR ''.'' \<and> s \<noteq> [] \<and> is_digit (hd s))
      then (case scan_number s of (n, r) \<Rightarrow> (c # n, r))
      else ([], c # s))"

text \<open>
  \<open>\s*[:\-]\s*(\d+(?:\.\d+)*)\<close>, the part of both patterns after the word
  \<open>SECTION\<close>: group 1 and the text after the match, or \<open>None\<close>.
\<close>

definition marker_tail :: "string \<Rightarrow> (string \<times> string) option" where
  "marker_tail s =
     (case dropWhile is_space s of
        [] \<Rightarrow> None
      | c # r \<Rightarrow>
          if c = CHR '':'' \<or> c = CHR ''-''
          then (case dropWhile is_space r of
                  [] \<Rightarrow> None
                | d # r' \<Rightarrow> if is_digit d then Some (scan_number (d # r')) else None)
          else None)"

text \<open>
  The lookahead \<open>(?=SECTION\s*[:\-]\s*\d+(?:\.\d+)*)\<close> of the substitution; it is
  compiled without \<open>re.IGNORECASE\<close>.
\<close>

definition marker_ahead :: "string \<Rightarrow> bool" where
  "marker_ahead s \<longleftrightarrow> startswith s ''SECTION'' \<and> marker_tail (drop 7 s) \<noteq> None"

text \<open>
  \<open>SECTION_HEADER_REGEX\<close> tried at one position where \<open>^\<close> holds:
  \<open>\s*SECTION\s*[:\-]\s*(\d+(?:\.\d+)*)\<close> with \<open>re.IGNORECASE\<close>.
\<close>

definition match_header :: "string \<Rightarrow> (string \<times> string) option" where
  "match_header s =
     (let r = dropWhile is_space s
      in if startswith_ci r ''SECTION'' then marker_tail (drop 7 r) else None)"

subsection \<open>parse\_fsd\_sections\<close>

text \<open>
  \<open>re.sub(r"\s*(?=SECTION...)", "\n", fsd_text)\<close>.  At a position the pattern can
  only match the whole whitespace run that starts there, followed by the lookahead.
  After a non-empty match the search resumes at its end, where the empty match is
  found and replaced as well; after an empty match the next match at the same position
  must be non-empty (the flag), so the character is copied and the search moves on.
\<close>

function re_sub_marker :: "bool \<Rightarrow> string \<Rightarrow> string" where
  "re_sub_marker must_advance s =
     (let w = takeWhile is_space s; r = dropWhile is_space s
      in if marker_ahead r \<and> (w \<noteq> [] \<or> \<not> must_advance)
         then LF # re_sub_marker (w = []) r
         else (case s of [] \<Rightarrow> [] | c # s' \<Rightarrow> c # re_sub_marker False s'))"
  by pat_completeness auto
termination
proof (relation "measure (\<lambda>(adv, s). 2 * length s + (if adv then 0 else 1))", goal_cases)
  case 1
  show ?case by simp
next
  case (2 must_advance s w r)
  show ?case
  proof (cases "w = []")
    case True
    with 2 length_dropWhile_le [of is_space s] show ?thesis by auto
  next
    case False
    have "length w + length r = length s"
      using 2(1,2) by (metis length_append takeWhile_dropWhile_id)
    moreover have "0 < length w" using False by simp
    ultimately have "length r < length s" by arith
    then show ?thesis using 2 by auto
  qed
next
  case 3
  then show ?case by simp
qed

declare re_sub_marker.simps [simp del]

text \<open>\<open>re.sub(r"\n{2,}", "\n", fsd_text)\<close>\<close>

function collapse_newlines :: "string \<Rightarrow> string" where
  "collapse_newlines [] = []"
| "collapse_newlines (c # s) =
     (if c = LF \<and> s \<noteq> [] \<and> hd s = LF
      then LF # collapse_newlines (dropWhile (\<lambda>x. x = LF) s)
      else c # collapse_newlines s)"
  by pat_completeness auto
termination
  by (relation "measure length") (auto intro: le_imp_less_Suc length_dropWhile_le)

text \<open>
  One match object of \<open>SECTION_HEADER_REGEX.finditer\<close>: \<open>m.start()\<close>, \<open>m.end()\<close>
  and \<open>m.group(1)\<close>.
\<close>

record header_match =
  m_start :: nat
  m_end :: nat
  group1 :: string

lemma scan_number_length: "length (snd (scan_number s)) \<le> length s"
  by (induction s) (auto split: prod.splits)

lemma marker_tail_shorter:
  assumes "marker_tail s = Some (n, r)"
  shows "length r < length s"
proof -
  from assms obtain c t where t: "dropWhile is_space s = c # t"
    by (auto simp: marker_tail_def split: list.splits)
  from assms t obtain d t' where t': "dropWhile is_space t = d # t'" "scan_number (d # t') = (n, r)"
    by (auto simp: marker_tail_def split: list.splits if_splits)
  have "length r \<le> length (d # t')"
    using scan_number_length [of "d # t'"] t'(2) by simp
  also have "\<dots> \<le> length t"
    using length_dropWhile_le [of is_space t] t'(1) by simp
  also have "\<dots> < length (c # t)" by simp
  also have "\<dots> \<le> length s"
    using length_dropWhile_le [of is_space s] t by simp
  finally show ?thesis .
qed

lemma match_header_shorter:
  assumes "match_header s = Some (n, r)"
  shows "length r < length s"
proof -
  let ?r = "dropWhile is_space s"
  from assms have "marker_tail (drop 7 ?r) = Some (n, r)"
    by (auto simp: match_header_def Let_def split: if_splits)
  then have "length r < length (drop 7 ?r)" by (rule marker_tail_shorter)
  also have "\<dots> \<le> length ?r" by simp
  also have "\<dots> \<le> length s" by (rule length_dropWhile_le)
  finally show ?thesis .
qed

text \<open>
  \<open>list(SECTION_HEADER_REGEX.finditer(fsd_text))\<close>, scanning the text from position
  \<open>pos\<close>; \<open>bol\<close> says whether \<open>^\<close> holds there (\<open>re.MULTILINE\<close>: at the start of the
  text and after every line feed).  A match is never empty, so the scan resumes at its
  end, which follows a digit.
\<close>

function finditer_headers :: "nat \<Rightarrow> bool \<Rightarrow> string \<Rightarrow> header_match list" where
  "finditer_headers pos bol s =
     (case (if bol then match_header s else None) of
        Some (num, rest) \<Rightarrow>
          (let e = pos + (length s - length rest)
           in \<lparr>m_start = pos, m_end = e, group1 = num\<rparr> # finditer_headers e False rest)
      | None \<Rightarrow>
          (case s of
             [] \<Rightarrow> []
           | c # s' \<Rightarrow> finditer_headers (Suc pos) (c = LF) s'))"
  by pat_completeness auto
termination
  by (relation "measure (\<lambda>(pos, bol, s). length s)")
     (auto split: if_splits dest: match_header_shorter)

declare finditer_headers.simps [simp del]

text \<open>
  The loop \<open>for idx, m in enumerate(matches)\<close>, with the dictionary \<open>sections\<close> as an
  association list in insertion order: storing under a key that is present replaces the
  value in place, as a Python \<open>dict\<close> does.
\<close>

fun store_sections ::
  "string \<Rightarrow> header_match list \<Rightarrow> (string \<times> string) list \<Rightarrow> (string \<times> string) list" where
  "store_sections fsd_text [] sections = sections"
| "store_sections fsd_text (m # ms) sections =
     (let number = strip (group1 m);
          start = m_end m;
          end = (case ms of [] \<Rightarrow> length fsd_text | m' # _ \<Rightarrow> m_start m');
          content = strip (slice fsd_text start end)
      in store_sections fsd_text ms (AList.update number content sections))"

definition normalize_fsd :: "string \<Rightarrow> string" where
  "normalize_fsd fsd_text =
     collapse_newlines (re_sub_marker False (filter (\<lambda>c. c \<noteq> CR) fsd_text))"

definition parse_fsd_sections :: "string \<Rightarrow> (string \<times> string) list" where
  "parse_fsd_sections fsd_text =
     (let fsd_text = normalize_fsd fsd_text;
          matches = finditer_headers 0 True fsd_text
      in store_sections fsd_text matches [])"

subsection \<open>section\_mapper.py and extract\_relevant\_fsd\_slice\<close>

record SectionMapper =
  path :: string
  map' :: "string \<rightharpoonup> string list"

definition keywords_for :: "SectionMapper \<Rightarrow> string \<Rightarrow> string list" where
  "keywords_for self udd_section =
     (case map' self udd_section of None \<Rightarrow> [] | Some keys \<Rightarrow> keys)"

text \<open>The loop \<open>for key in mapped_keys\<close> with its accumulator \<open>combined\<close>.\<close>

fun collect_sections ::
  "(string \<times> string) list \<Rightarrow> string list \<Rightarrow> string list \<Rightarrow> string list" where
  "collect_sections fs_sections [] combined = combined"
| "collect_sections fs_sections (key # keys) combined =
     (let key = strip key
      in case map_of fs_sections key of
           Some body \<Rightarrow> collect_sections fs_sections keys (combined @ [body])
         | None \<Rightarrow> collect_sections fs_sections keys combined)"

definition extract_relevant_fsd_slice :: "string \<Rightarrow> string \<Rightarrow> SectionMapper \<Rightarrow> string" where
  "extract_relevant_fsd_slice fsd_text udd_section mapper =
     (let fs_sections = parse_fsd_sections fsd_text;
          mapped_keys = keywords_for mapper udd_section;
          combined = collect_sections fs_sections mapped_keys []
      in if combined \<noteq> [] then join [LF, LF] combined else fsd_text)"

section \<open>rag\_loader.py\<close>

record RagSection =
  name :: string
  type' :: string
  description :: string
  prompt :: string
  fields' :: "string list option"

datatype py_error = ValueError | FileNotFoundError

text \<open>The list \<open>[l.strip() for l in block.strip().splitlines() if l.strip()]\<close>.\<close>

definition nonblank_lines :: "string \<Rightarrow> string list" where
  "nonblank_lines block = map strip (filter (\<lambda>l. strip l \<noteq> []) (splitlines (strip block)))"

text \<open>\<open>re.match(r"^[a-zA-Z_]+:\s*", ln)\<close>\<close>

definition is_key_char :: "char \<Rightarrow> bool" where
  "is_key_char c \<longleftrightarrow>
     c \<in> set ''abcdefghijklmnopqrstuvwxyzABCDEFGHIJKLMNOPQRSTUVWXYZ_''"

definition key_line :: "string \<Rightarrow> bool" where
  "key_line ln \<longleftrightarrow>
     takeWhile is_key_char ln \<noteq> [] \<and>
     (case dropWhile is_key_char ln of [] \<Rightarrow> False | c # _ \<Rightarrow> c = CHR '':'')"

text \<open>
  The state of the loop over \<open>lines[1:]\<close>: \<open>keyvals\<close> (in insertion order),
  \<open>current_key\<close> and \<open>current_val_lines\<close>.
\<close>

type_synonym rag_state = "(string \<times> string) list \<times> string option \<times> string list"

definition flush_key :: "rag_state \<Rightarrow> rag_state" where
  "flush_key st =
     (case st of (keyvals, current_key, current_val_lines) \<Rightarrow>
        (case current_key of
           None \<Rightarrow> st
         | Some k \<Rightarrow> (AList.update k (strip (join '' '' current_val_lines)) keyvals, None, [])))"

fun parse_keyvals :: "string list \<Rightarrow> rag_state \<Rightarrow> rag_state" where
  "parse_keyvals [] st = st"
| "parse_keyvals (ln # lns) st =
     (if key_line ln
      then (case flush_key st of (keyvals, _, _) \<Rightarrow>
              let k = takeWhile (\<lambda>c. c \<noteq> CHR '':'') ln;
                  v = tl (dropWhile (\<lambda>c. c \<noteq> CHR '':'') ln)
              in parse_keyvals lns (keyvals, Some (strip k), [strip v]))
      else (case st of (keyvals, current_key, current_val_lines) \<Rightarrow>
              parse_keyvals lns (keyvals, current_key, current_val_lines @ [strip ln])))"

text \<open>
  \<open>re.match(r"^\[(.*)\]$", raw)\<close>, giving group 1: \<open>.\<close> does not match a line feed, and
  \<open>$\<close> also matches before a line feed that ends the text.
\<close>

definition bracketed :: "string \<Rightarrow> string option" where
  "bracketed raw =
     (let body = (if raw \<noteq> [] \<and> last raw = LF then butlast raw else raw)
      in if 2 \<le> length body \<and> hd body = CHR ''['' \<and> last body = CHR '']'' \<and>
            LF \<notin> set (butlast (tl body))
         then Some (butlast (tl body)) else None)"

text \<open>The branch \<open>if "fields" in keyvals\<close>, applied to \<open>raw = keyvals["fields"]\<close>.\<close>

definition parse_fields :: "string \<Rightarrow> string list" where
  "parse_fields raw =
     (case bracketed raw of
        Some inner \<Rightarrow>
          (let parts = map strip (split_on CHR '','' inner)
           in filter (\<lambda>p. p \<noteq> []) parts)
      | None \<Rightarrow> map strip (filter (\<lambda>f. strip f \<noteq> []) (split_on CHR '','' raw)))"

definition dict_get :: "(string \<times> string) list \<Rightarrow> string \<Rightarrow> string \<Rightarrow> string" where
  "dict_get d k dflt = (case map_of d k of None \<Rightarrow> dflt | Some v \<Rightarrow> v)"

definition parse_rag_block :: "string \<Rightarrow> py_error + RagSection" where
  "parse_rag_block block =
     (let lines = nonblank_lines block
      in if lines = [] \<or> \<not> startswith (hd lines) ''#'' then Inl ValueError
         else
           (let name = strip (tl (hd lines));
                keyvals = fst (flush_key (parse_keyvals (tl lines) ([], None, [])))
            in Inr \<lparr>name = name,
                    type' = dict_get keyvals ''type'' ''text'',
                    description = dict_get keyvals ''description'' [],
                    prompt = dict_get keyvals ''prompt'' [],
                    fields' = map_option parse_fields (map_of keyvals ''fields'')\<rparr>))"

text \<open>\<open>re.split(r"\n(?=#)", text)\<close>\<close>

fun re_split_blocks :: "string \<Rightarrow> string list" where
  "re_split_blocks [] = [[]]"
| "re_split_blocks (c # s) =
     (if c = LF \<and> s \<noteq> [] \<and> hd s = CHR ''#'' then [] # re_split_blocks s
      else (case re_split_blocks s of [] \<Rightarrow> [[c]] | p # ps \<Rightarrow> (c # p) # ps))"

text \<open>
  The loop \<open>for idx, block in enumerate(blocks)\<close> with its \<open>try\<close>/\<open>except Exception\<close>:
  a block whose parse raises is logged and left out.
\<close>

fun load_blocks :: "string list \<Rightarrow> RagSection list \<Rightarrow> RagSection list" where
  "load_blocks [] sections = sections"
| "load_blocks (block # blocks) sections =
     (if strip block \<noteq> []
      then (case parse_rag_block block of
              Inr section \<Rightarrow> load_blocks blocks (sections @ [section])
            | Inl e \<Rightarrow> load_blocks blocks sections)
      else load_blocks blocks sections)"

text \<open>
  \<open>load_rag_sections\<close>.  The file system is a map from paths to file contents;
  \<open>DEFAULT_RAG_PATH\<close> is read from the environment and is a parameter here.
\<close>

definition load_rag_sections ::
  "string \<Rightarrow> (string \<rightharpoonup> string) \<Rightarrow> string option \<Rightarrow> py_error + RagSection list" where
  "load_rag_sections DEFAULT_RAG_PATH files rag_path =
     (let path = (case rag_path of None \<Rightarrow> DEFAULT_RAG_PATH
                  | Some p \<Rightarrow> if p = [] then DEFAULT_RAG_PATH else p)
      in case files path of
           None \<Rightarrow> Inl FileNotFoundError
         | Some text \<Rightarrow> Inr (load_blocks (re_split_blocks (strip text)) []))"

section \<open>docx\_builder.py\<close>

text \<open>\<open>s.count(c)\<close> for a single character \<open>c\<close>\<close>

definition count_char :: "char \<Rightarrow> string \<Rightarrow> nat" where
  "count_char c s = length (filter (\<lambda>x. x = c) s)"

text \<open>The test \<open>l.count('|') >= 1\<close>\<close>

definition has_pipe :: "string \<Rightarrow> bool" where
  "has_pipe l \<longleftrightarrow> count_char CHR ''|'' l \<ge> 1"

text \<open>
  \<open>is_subsection_heading\<close>: \<open>re.match(r"^\d+\.\d+(\.|)\s", text.strip())\<close>.
\<close>

definition is_subsection_heading :: "string \<Rightarrow> bool" where
  "is_subsection_heading text =
     (let s = strip text; r1 = dropWhile is_digit s
      in takeWhile is_digit s \<noteq> [] \<and>
         (case r1 of
            [] \<Rightarrow> False
          | c # r2 \<Rightarrow>
              c = CHR ''.'' \<and> takeWhile is_digit r2 \<noteq> [] \<and>
              (case dropWhile is_digit r2 of
                 [] \<Rightarrow> False
               | d # r3 \<Rightarrow>
                   (d = CHR ''.'' \<and> r3 \<noteq> [] \<and> is_space (hd r3)) \<or> is_space d)))"

text \<open>
  The \<open>while i < len(lines)\<close> loop of \<open>find_all_table_like_chunks\<close>, on the lines from
  index \<open>i\<close> on.  A chunk is the pair of its kind, \<open>table\<close> or \<open>text\<close>, and its value.
\<close>

function chunk_lines :: "string list \<Rightarrow> (string \<times> string) list" where
  "chunk_lines [] = []"
| "chunk_lines (l # ls) =
     (if has_pipe l \<and> (ls \<noteq> [] \<and> has_pipe (hd ls))
      then (let buf = l # takeWhile has_pipe ls
            in (''table'', strip (join [LF] buf)) # chunk_lines (dropWhile has_pipe ls))
      else (if strip l \<noteq> [] then [(''text'', strip l)] else []) @ chunk_lines ls)"
  by pat_completeness auto
termination
  by (relation "measure length") (auto intro: le_imp_less_Suc length_dropWhile_le)

definition find_all_table_like_chunks :: "string \<Rightarrow> (string \<times> string) list" where
  "find_all_table_like_chunks text =
     (if text = [] \<or> strip text = [] then [] else chunk_lines (splitlines text))"

text \<open>The cells of one line: \<open>[c.strip() for c in l.strip('|').split('|')]\<close>.\<close>

definition row_cells :: "string \<Rightarrow> string list" where
  "row_cells l = map strip (split_on CHR ''|'' (strip_char CHR ''|'' l))"

text \<open>The list \<open>[l.strip() for l in table_md.splitlines() if l.strip()]\<close>.\<close>

definition table_md_lines :: "string \<Rightarrow> string list" where
  "table_md_lines table_md = map strip (filter (\<lambda>l. strip l \<noteq> []) (splitlines table_md))"

text \<open>\<open>parse_markdown_table\<close>; the pair \<open>(None, None)\<close> is \<open>None\<close>.\<close>

definition parse_markdown_table :: "string \<Rightarrow> (string list \<times> string list list) option" where
  "parse_markdown_table table_md =
     (let lines = table_md_lines table_md
      in if length lines < 2 then None
         else if \<not> startswith (hd lines) ''|'' then None
         else
           (let rows = map row_cells lines;
                header = hd rows;
                data_rows = tl rows
            in if list_all (\<lambda>r. length r = length header) data_rows
               then Some (header, data_rows) else None))"

text \<open>
  What \<open>build_document\<close> hands to the document for one chunk: a bold paragraph kept
  out of the outline, a normal paragraph, or a table.
\<close>

datatype content_block =
    SubHeading string
  | Paragraph string
  | Table "string list" "string list list"

definition render_chunk :: "string \<times> string \<Rightarrow> content_block list" where
  "render_chunk chunk =
     (case chunk of (typ, v) \<Rightarrow>
        if typ = ''text''
        then (if is_subsection_heading v then [SubHeading v] else [Paragraph v])
        else if typ = ''table''
        then (case parse_markdown_table v of
                Some (colnames, rows) \<Rightarrow>
                  if colnames \<noteq> [] \<and> rows \<noteq> [] then [Table colnames rows] else [Paragraph v]
              | None \<Rightarrow> [Paragraph v])
        else [])"

section \<open>Properties of the slice resolver\<close>

lemma collect_sections_eq:
  "collect_sections fs keys combined =
     combined @ map (\<lambda>key. the (map_of fs (strip key)))
                  (filter (\<lambda>key. strip key \<in> fst ` set fs) keys)"
proof (induction keys arbitrary: combined)
  case Nil
  show ?case by simp
next
  case (Cons key keys)
  show ?case
  proof (cases "map_of fs (strip key)")
    case None
    then have "strip key \<notin> fst ` set fs" by (simp add: map_of_eq_None_iff)
    with None Cons show ?thesis by simp
  next
    case (Some body)
    then have "strip key \<in> fst ` set fs" by (metis map_of_eq_None_iff option.distinct(1))
    with Some Cons show ?thesis by simp
  qed
qed

lemma join_empty_iff:
  "sep \<noteq> [] \<Longrightarrow> join sep xs = [] \<longleftrightarrow> xs = [] \<or> xs = [[]]"
  by (induction sep xs rule: join.induct) auto

lemma store_sections_other:
  "k \<notin> (\<lambda>m. strip (group1 m)) ` set ms \<Longrightarrow>
   map_of (store_sections t ms sections) k = map_of sections k"
  by (induction ms arbitrary: sections) (auto simp: Let_def update_conv')

lemma store_sections_last:
  assumes "i < length ms"
    and "\<forall>j. i < j \<and> j < length ms \<longrightarrow> strip (group1 (ms ! j)) \<noteq> strip (group1 (ms ! i))"
  shows "map_of (store_sections t ms sections) (strip (group1 (ms ! i))) =
         Some (strip (slice t (m_end (ms ! i))
                 (if Suc i < length ms then m_start (ms ! Suc i) else length t)))"
  using assms
proof (induction ms arbitrary: i sections)
  case Nil
  then show ?case by simp
next
  case (Cons m ms)
  show ?case
  proof (cases i)
    case 0
    have "strip (group1 m) \<notin> (\<lambda>m. strip (group1 m)) ` set ms"
    proof
      assume "strip (group1 m) \<in> (\<lambda>m. strip (group1 m)) ` set ms"
      then obtain j where "j < length ms" "strip (group1 (ms ! j)) = strip (group1 m)"
        by (auto simp: in_set_conv_nth)
      with Cons.prems(2) 0 show False by (auto dest: spec [of _ "Suc j"])
    qed
    then show ?thesis
      using 0 by (cases ms) (simp_all add: Let_def store_sections_other update_conv')
  next
    case (Suc i')
    have "\<forall>j. i' < j \<and> j < length ms \<longrightarrow> strip (group1 (ms ! j)) \<noteq> strip (group1 (ms ! i'))"
    proof (intro allI impI)
      fix j assume "i' < j \<and> j < length ms"
      with Cons.prems(2) Suc show "strip (group1 (ms ! j)) \<noteq> strip (group1 (ms ! i'))"
        by (auto dest: spec [of _ "Suc j"])
    qed
    with Cons.IH [of i'] Cons.prems(1) Suc show ?thesis by (simp add: Let_def)
  qed
qed

text \<open>
  Claim C1.  When the section map has no entry for the UDD section name, or no listed
  identifier (trimmed, as the lookup trims it) is a key of the sectionized FSD,
  \<open>extract_relevant_fsd_slice\<close> returns the original FSD text unchanged.
\<close>

theorem fallback_returns_original:
  assumes "map' mapper udd_section = None \<or>
           (\<forall>key \<in> set (keywords_for mapper udd_section).
              strip key \<notin> fst ` set (parse_fsd_sections fsd_text))"
  shows "extract_relevant_fsd_slice fsd_text udd_section mapper = fsd_text"
proof -
  have "\<forall>key \<in> set (keywords_for mapper udd_section).
          strip key \<notin> fst ` set (parse_fsd_sections fsd_text)"
    using assms by (auto simp: keywords_for_def)
  then have "filter (\<lambda>key. strip key \<in> fst ` set (parse_fsd_sections fsd_text))
               (keywords_for mapper udd_section) = []"
    by (simp add: filter_empty_conv)
  then show ?thesis
    by (simp add: extract_relevant_fsd_slice_def Let_def collect_sections_eq)
qed

theorem fallback_returns_original_witness:
  "strip ''9'' \<notin> fst ` set (parse_fsd_sections ''SECTION: 1\<newline>A'') \<and>
   extract_relevant_fsd_slice ''SECTION: 1\<newline>A'' ''X''
     \<lparr>path = ''m.json'', map' = [''X'' \<mapsto> [''9'']]\<rparr> = ''SECTION: 1\<newline>A''"
proof -
  let ?m = "\<lparr>path = ''m.json'', map' = [''X'' \<mapsto> [''9'']]\<rparr>"
  have p: "parse_fsd_sections ''SECTION: 1\<newline>A'' = [(''1'', ''A'')]"
    by code_simp
  have s: "strip ''9'' = ''9''"
    by code_simp
  have h: "strip ''9'' \<notin> fst ` set (parse_fsd_sections ''SECTION: 1\<newline>A'')"
    by (simp add: p s)
  then have "map' ?m ''X'' = None \<or>
     (\<forall>key \<in> set (keywords_for ?m ''X'').
        strip key \<notin> fst ` set (parse_fsd_sections ''SECTION: 1\<newline>A''))"
    by (simp add: keywords_for_def)
  then have "extract_relevant_fsd_slice ''SECTION: 1\<newline>A'' ''X'' ?m = ''SECTION: 1\<newline>A''"
    by (rule fallback_returns_original)
  with h show ?thesis
    by blast
qed

text \<open>
  Claim C2, as stated, fails: a mapped identifier that is present with an empty body
  makes the accumulator a non-empty list whose join is the empty string.
\<close>

theorem empty_slice_counterexample:
  "''SECTION: 1'' \<noteq> [] \<and>
   extract_relevant_fsd_slice ''SECTION: 1'' ''X''
     \<lparr>path = ''m.json'', map' = [''X'' \<mapsto> [''1'']]\<rparr> = []"
proof -
  have p: "parse_fsd_sections ''SECTION: 1'' = [(''1'', [])]"
    by code_simp
  have s: "strip ''1'' = ''1''"
    by code_simp
  show ?thesis
    by (simp add: extract_relevant_fsd_slice_def keywords_for_def p s)
qed

text \<open>
  Claim C2, amended.  For a non-empty FSD text the result is the empty string exactly
  when one single listed identifier is present in the sectionized FSD and its body is
  empty; in every other case the result is non-empty.
\<close>

theorem slice_empty_iff:
  assumes "fsd_text \<noteq> []"
  shows "extract_relevant_fsd_slice fsd_text udd_section mapper = [] \<longleftrightarrow>
         (\<exists>key. filter (\<lambda>key. strip key \<in> fst ` set (parse_fsd_sections fsd_text))
                   (keywords_for mapper udd_section) = [key] \<and>
                map_of (parse_fsd_sections fsd_text) (strip key) = Some [])"
proof -
  let ?fs = "parse_fsd_sections fsd_text"
  let ?present = "filter (\<lambda>key. strip key \<in> fst ` set ?fs) (keywords_for mapper udd_section)"
  let ?combined = "map (\<lambda>key. the (map_of ?fs (strip key))) ?present"
  have in_fs: "\<And>key. key \<in> set ?present \<Longrightarrow> map_of ?fs (strip key) \<noteq> None"
    by (simp add: map_of_eq_None_iff)
  have "extract_relevant_fsd_slice fsd_text udd_section mapper = [] \<longleftrightarrow> ?combined = [[]]"
    using assms
    by (auto simp: extract_relevant_fsd_slice_def Let_def collect_sections_eq join_empty_iff)
  also have "\<dots> \<longleftrightarrow> (\<exists>key. ?present = [key] \<and> map_of ?fs (strip key) = Some [])"
  proof
    assume c: "?combined = [[]]"
    then obtain key where k: "?present = [key]"
      by (cases ?present) auto
    then have "key \<in> set ?present" by simp
    then obtain body where "map_of ?fs (strip key) = Some body"
      using in_fs by blast
    with c k show "\<exists>key. ?present = [key] \<and> map_of ?fs (strip key) = Some []"
      by auto
  next
    assume "\<exists>key. ?present = [key] \<and> map_of ?fs (strip key) = Some []"
    then show "?combined = [[]]" by auto
  qed
  finally show ?thesis .
qed

theorem slice_empty_iff_witness:
  "''SECTION: 1\<newline>A'' \<noteq> [] \<and>
   extract_relevant_fsd_slice ''SECTION: 1\<newline>A'' ''X''
     \<lparr>path = ''m.json'', map' = [''X'' \<mapsto> [''1'']]\<rparr> \<noteq> []"
proof -
  let ?t = "''SECTION: 1\<newline>A''"
  let ?m = "\<lparr>path = ''m.json'', map' = [''X'' \<mapsto> [''1'']]\<rparr>"
  have p: "parse_fsd_sections ?t = [(''1'', ''A'')]"
    by code_simp
  have s: "strip ''1'' = ''1''"
    by code_simp
  have ne: "?t \<noteq> []"
    by simp
  show ?thesis
    using slice_empty_iff [OF ne, of "''X''" ?m]
    by (simp add: p s keywords_for_def)
qed

text \<open>
  Claim C8.  When at least one listed identifier is present, the result is the bodies
  of the present identifiers, in list order, joined by two line feeds; absent
  identifiers are skipped.  In particular the list \<open>["1", "2"]\<close> over the bodies
  \<open>Alpha\<close> and \<open>Beta\<close> gives \<open>Alpha\n\nBeta\<close>.
\<close>

theorem mapped_bodies_joined:
  assumes "\<exists>key \<in> set (keywords_for mapper udd_section).
             strip key \<in> fst ` set (parse_fsd_sections fsd_text)"
  shows "extract_relevant_fsd_slice fsd_text udd_section mapper =
           join ''\<newline>\<newline>''
             (map (\<lambda>key. the (map_of (parse_fsd_sections fsd_text) (strip key)))
                (filter (\<lambda>key. strip key \<in> fst ` set (parse_fsd_sections fsd_text))
                   (keywords_for mapper udd_section))) \<and>
         (map' mapper udd_section = Some [''1'', ''2''] \<and>
          map_of (parse_fsd_sections fsd_text) ''1'' = Some ''Alpha'' \<and>
          map_of (parse_fsd_sections fsd_text) ''2'' = Some ''Beta'' \<longrightarrow>
          extract_relevant_fsd_slice fsd_text udd_section mapper = ''Alpha\<newline>\<newline>Beta'')"
proof
  let ?fs = "parse_fsd_sections fsd_text"
  let ?present = "filter (\<lambda>key. strip key \<in> fst ` set ?fs) (keywords_for mapper udd_section)"
  from assms have "?present \<noteq> []"
    by (simp add: filter_empty_conv)
  then show "extract_relevant_fsd_slice fsd_text udd_section mapper =
           join ''\<newline>\<newline>'' (map (\<lambda>key. the (map_of ?fs (strip key))) ?present)"
    by (simp add: extract_relevant_fsd_slice_def Let_def collect_sections_eq LF_def)
next
  have s: "strip ''1'' = ''1''" "strip ''2'' = ''2''"
    by code_simp+
  show "map' mapper udd_section = Some [''1'', ''2''] \<and>
          map_of (parse_fsd_sections fsd_text) ''1'' = Some ''Alpha'' \<and>
          map_of (parse_fsd_sections fsd_text) ''2'' = Some ''Beta'' \<longrightarrow>
          extract_relevant_fsd_slice fsd_text udd_section mapper = ''Alpha\<newline>\<newline>Beta''"
    by (simp add: extract_relevant_fsd_slice_def keywords_for_def s LF_def)
qed

theorem mapped_bodies_joined_witness:
  "extract_relevant_fsd_slice ''SECTION: 1\<newline>Alpha\<newline>SECTION: 2\<newline>Beta'' ''X''
     \<lparr>path = ''m.json'', map' = [''X'' \<mapsto> [''1'', ''2'']]\<rparr> = ''Alpha\<newline>\<newline>Beta''"
proof -
  let ?t = "''SECTION: 1\<newline>Alpha\<newline>SECTION: 2\<newline>Beta''"
  let ?m = "\<lparr>path = ''m.json'', map' = [''X'' \<mapsto> [''1'', ''2'']]\<rparr>"
  have p: "parse_fsd_sections ?t = [(''1'', ''Alpha''), (''2'', ''Beta'')]"
    by code_simp
  have s: "strip ''1'' = ''1''"
    by code_simp
  have h: "\<exists>key \<in> set (keywords_for ?m ''X''). strip key \<in> fst ` set (parse_fsd_sections ?t)"
    by (simp add: keywords_for_def p s)
  have "map' ?m ''X'' = Some [''1'', ''2''] \<and>
        map_of (parse_fsd_sections ?t) ''1'' = Some ''Alpha'' \<and>
        map_of (parse_fsd_sections ?t) ''2'' = Some ''Beta''"
    by (simp add: p)
  with mapped_bodies_joined [OF h] show ?thesis
    by blast
qed

section \<open>Properties of the sectionizer\<close>

lemma marker_ahead_head: "marker_ahead s \<Longrightarrow> s \<noteq> [] \<and> \<not> is_space (hd s)"
  by (cases s) (auto simp: marker_ahead_def is_space_def)

lemma dropWhile_space_marker: "marker_ahead s \<Longrightarrow> dropWhile is_space s = s"
  using marker_ahead_head [of s] by (cases s) auto

lemma dropWhile_space_append_marker:
  "marker_ahead s \<Longrightarrow> dropWhile is_space (p @ s) = dropWhile is_space p @ s"
  by (induction p) (auto simp: dropWhile_space_marker)

lemma re_sub_marker_inserts:
  "marker_ahead s \<Longrightarrow> (p = [] \<longrightarrow> \<not> adv) \<Longrightarrow> t = p @ s \<Longrightarrow>
   \<exists>u. re_sub_marker adv t = u @ LF # hd s # re_sub_marker False (tl s)"
proof (induction adv t arbitrary: p rule: re_sub_marker.induct)
  case (1 adv t)
  note m = \<open>marker_ahead s\<close>
  from m obtain c s' where s: "s = c # s'" "\<not> is_space c"
    using marker_ahead_head [of s] by (cases s) auto
  show ?case
  proof (cases p)
    case Nil
    with 1 s have "re_sub_marker adv t = LF # re_sub_marker True s"
      by (subst re_sub_marker.simps) simp
    also have "re_sub_marker True s = c # re_sub_marker False s'"
      using s by (subst re_sub_marker.simps) simp
    finally show ?thesis using s by simp
  next
    case (Cons x p')
    let ?w = "takeWhile is_space t" and ?r = "dropWhile is_space t"
    have r: "?r = dropWhile is_space p @ s"
      using 1(5) m by (simp add: dropWhile_space_append_marker)
    show ?thesis
    proof (cases "marker_ahead ?r \<and> (?w \<noteq> [] \<or> \<not> adv)")
      case True
      have "dropWhile is_space p = [] \<longrightarrow> \<not> (?w = [])"
        using Cons 1(5) by (auto simp: takeWhile_eq_Nil_iff dropWhile_eq_Nil_conv)
      from 1(1) [OF refl refl True m this r]
      obtain u where "re_sub_marker (?w = []) ?r = u @ LF # hd s # re_sub_marker False (tl s)"
        by blast
      moreover have "re_sub_marker adv t = LF # re_sub_marker (?w = []) ?r"
        using True by (subst re_sub_marker.simps) (simp add: Let_def)
      ultimately have "re_sub_marker adv t = (LF # u) @ LF # hd s # re_sub_marker False (tl s)"
        by simp
      then show ?thesis by blast
    next
      case False
      have t: "t = x # (p' @ s)" using Cons 1(5) by simp
      have "p' = [] \<longrightarrow> \<not> False" by simp
      from 1(2) [OF refl refl False t m this refl]
      obtain u where "re_sub_marker False (p' @ s) = u @ LF # hd s # re_sub_marker False (tl s)"
        by blast
      moreover have "re_sub_marker adv t =
          (case t of [] \<Rightarrow> [] | c # s' \<Rightarrow> c # re_sub_marker False s')"
        using False by (subst re_sub_marker.simps) (auto simp: Let_def)
      then have "re_sub_marker adv t = x # re_sub_marker False (p' @ s)"
        by (simp add: t)
      ultimately have "re_sub_marker adv t = (x # u) @ LF # hd s # re_sub_marker False (tl s)"
        by simp
      then show ?thesis by blast
    qed
  qed
qed

text \<open>
  Claim C3.  The value stored for an identifier is the body that follows the last
  header carrying it: if no later match has the identifier of match \<open>i\<close>, the
  dictionary maps it to the trimmed text between the end of match \<open>i\<close> and the start
  of the next match (or the end of the text).  In particular
  \<open>SECTION: 1\nA\nSECTION: 1\nB\<close> gives \<open>{"1": "B"}\<close>.
\<close>

theorem repeated_identifier_last_wins:
  assumes "ms = finditer_headers 0 True (normalize_fsd fsd_text)"
    and "i < length ms"
    and "\<forall>j. i < j \<and> j < length ms \<longrightarrow> strip (group1 (ms ! j)) \<noteq> strip (group1 (ms ! i))"
  shows "map_of (parse_fsd_sections fsd_text) (strip (group1 (ms ! i))) =
           Some (strip (slice (normalize_fsd fsd_text) (m_end (ms ! i))
                   (if Suc i < length ms then m_start (ms ! Suc i)
                    else length (normalize_fsd fsd_text)))) \<and>
         parse_fsd_sections ''SECTION: 1\<newline>A\<newline>SECTION: 1\<newline>B'' = [(''1'', ''B'')]"
proof
  show "map_of (parse_fsd_sections fsd_text) (strip (group1 (ms ! i))) =
           Some (strip (slice (normalize_fsd fsd_text) (m_end (ms ! i))
                   (if Suc i < length ms then m_start (ms ! Suc i)
                    else length (normalize_fsd fsd_text))))"
    unfolding parse_fsd_sections_def Let_def assms(1) [symmetric]
    using assms(2,3) by (rule store_sections_last)
  show "parse_fsd_sections ''SECTION: 1\<newline>A\<newline>SECTION: 1\<newline>B'' = [(''1'', ''B'')]"
    by code_simp
qed

theorem repeated_identifier_last_wins_witness:
  "map_of (parse_fsd_sections ''SECTION: 1\<newline>A\<newline>SECTION: 1\<newline>B'') ''1'' = Some ''B''"
proof -
  let ?t = "''SECTION: 1\<newline>A\<newline>SECTION: 1\<newline>B''"
  let ?ms = "[\<lparr>m_start = 0, m_end = 11, group1 = ''1''\<rparr>,
              \<lparr>m_start = 14, m_end = 24, group1 = ''1''\<rparr>]"
  have n: "normalize_fsd ?t = ''\<newline>SECTION: 1\<newline>A\<newline>SECTION: 1\<newline>B''"
    by code_simp
  have ms: "?ms = finditer_headers 0 True (normalize_fsd ?t)"
    by code_simp
  have i: "(1::nat) < length ?ms"
    by simp
  have l: "\<forall>j. 1 < j \<and> j < length ?ms \<longrightarrow>
             strip (group1 (?ms ! j)) \<noteq> strip (group1 (?ms ! 1))"
    by auto
  have s: "strip ''1'' = ''1''" "strip ''\<newline>B'' = ''B''"
    by code_simp+
  show ?thesis
    using repeated_identifier_last_wins [OF ms i l]
    by (simp add: n s slice_def)
qed

text \<open>
  Claim C10.  The substitution puts a line feed immediately before every place where
  the marker pattern starts, whatever precedes it, so a marker that ends a longer word
  is recognised: \<open>SUBSECTION: 2 body\<close> is sectionized to \<open>{"2": "body"}\<close>.
\<close>

theorem marker_inside_word_recognised:
  "(marker_ahead s \<longrightarrow>
      (\<exists>u. re_sub_marker False (p @ s) = u @ LF # hd s # re_sub_marker False (tl s))) \<and>
   re_sub_marker False ''SUBSECTION: 2 body'' = ''SUB\<newline>SECTION: 2 body'' \<and>
   parse_fsd_sections ''SUBSECTION: 2 body'' = [(''2'', ''body'')]"
proof (intro conjI impI)
  assume "marker_ahead s"
  then show "\<exists>u. re_sub_marker False (p @ s) = u @ LF # hd s # re_sub_marker False (tl s)"
    by (rule re_sub_marker_inserts) simp_all
next
  show "re_sub_marker False ''SUBSECTION: 2 body'' = ''SUB\<newline>SECTION: 2 body''"
    by code_simp
next
  show "parse_fsd_sections ''SUBSECTION: 2 body'' = [(''2'', ''body'')]"
    by code_simp
qed

theorem marker_inside_word_recognised_witness:
  "marker_ahead ''SECTION: 2 body'' \<and>
   (\<exists>u. re_sub_marker False ''SUBSECTION: 2 body'' =
          u @ LF # CHR ''S'' # re_sub_marker False ''ECTION: 2 body'')"
proof -
  have m: "marker_ahead ''SECTION: 2 body''"
    by code_simp
  show ?thesis
    using m marker_inside_word_recognised [of "''SECTION: 2 body''" "''SUB''", THEN conjunct1]
    by simp
qed

section \<open>Properties of the template loader\<close>

lemma strip_subset: "set (strip s) \<subseteq> set s"
proof -
  have "set (strip s) \<subseteq> set (rev (dropWhile is_space s))"
    unfolding strip_def set_rev by (auto dest: set_dropWhileD)
  also have "\<dots> \<subseteq> set s"
    by (auto dest: set_dropWhileD)
  finally show ?thesis .
qed

lemma dropWhile_rev_keeps_head:
  assumes "t = [] \<or> \<not> P (hd t)"
  shows "dropWhile P (rev (dropWhile P (rev t))) = rev (dropWhile P (rev t))"
proof (cases "dropWhile P (rev t) = []")
  case True
  show ?thesis unfolding True by simp
next
  case False
  let ?u = "dropWhile P (rev t)"
  have "t \<noteq> []" using False by auto
  obtain a where a: "rev t = a @ ?u"
    by (metis takeWhile_dropWhile_id)
  have "last ?u = last (rev t)"
    using a False by (metis last_appendR)
  also have "\<dots> = hd t"
    using \<open>t \<noteq> []\<close> by (simp add: last_rev)
  finally have "\<not> P (last ?u)"
    using assms \<open>t \<noteq> []\<close> by simp
  then have "\<not> P (hd (rev ?u))"
    using False by (simp add: hd_rev)
  then show ?thesis
    using False by (cases "rev ?u") auto
qed

lemma strip_idem: "strip (strip s) = strip s"
proof -
  let ?t = "dropWhile is_space s"
  have h: "?t = [] \<or> \<not> is_space (hd ?t)"
    by (metis hd_dropWhile)
  have "dropWhile is_space (strip s) = strip s"
    unfolding strip_def using dropWhile_rev_keeps_head [of ?t is_space, OF h] .
  then have "strip (strip s) = rev (dropWhile is_space (rev (strip s)))"
    by (simp add: strip_def)
  also have "\<dots> = rev (dropWhile is_space (dropWhile is_space (rev ?t)))"
    by (simp add: strip_def)
  also have "\<dots> = strip s"
    by (simp add: strip_def dropWhile_idem)
  finally show ?thesis .
qed

lemma split_on_nonempty: "split_on c s \<noteq> []"
  by (induction s) (auto split: list.splits)

lemma split_on_no_sep: "p \<in> set (split_on c s) \<Longrightarrow> c \<notin> set p"
proof (induction s arbitrary: p)
  case Nil
  then show ?case by simp
next
  case (Cons x s)
  then show ?case
    by (cases "split_on c s") (auto split: if_splits)
qed

lemma parse_fields_eq:
  "parse_fields raw =
     filter (\<lambda>p. p \<noteq> [])
       (map strip (split_on CHR '','' (case bracketed raw of Some inner \<Rightarrow> inner | None \<Rightarrow> raw)))"
  by (simp add: parse_fields_def filter_map comp_def split: option.splits)

lemma parse_fields_entries:
  assumes "e \<in> set (parse_fields raw)"
  shows "e \<noteq> [] \<and> strip e = e \<and> CHR '','' \<notin> set e"
proof -
  let ?src = "case bracketed raw of Some inner \<Rightarrow> inner | None \<Rightarrow> raw"
  from assms obtain p where p: "p \<in> set (split_on CHR '','' ?src)" "e = strip p" "e \<noteq> []"
    unfolding parse_fields_eq by auto
  have "CHR '','' \<notin> set p" using p(1) by (rule split_on_no_sep)
  then have "CHR '','' \<notin> set e" using strip_subset [of p] p(2) by auto
  with p show ?thesis by (simp add: strip_idem)
qed

lemma parse_rag_block_fails_iff:
  "(\<exists>e. parse_rag_block block = Inl e) \<longleftrightarrow>
   (case nonblank_lines block of [] \<Rightarrow> True | l # ls \<Rightarrow> \<not> startswith l ''#'')"
  by (auto simp: parse_rag_block_def Let_def split: list.splits)

lemma blank_block_fails: "strip block = [] \<Longrightarrow> parse_rag_block block = Inl ValueError"
  by (simp add: parse_rag_block_def nonblank_lines_def splitlines_def)

lemma load_blocks_eq:
  "load_blocks blocks sections =
     sections @ List.map_filter
       (\<lambda>b. case parse_rag_block b of Inr sec \<Rightarrow> Some sec | Inl e \<Rightarrow> None) blocks"
proof (induction blocks arbitrary: sections)
  case Nil
  show ?case by (simp add: List.map_filter_simps)
next
  case (Cons b bs)
  show ?case
  proof (cases "strip b = []")
    case True
    then show ?thesis
      using Cons by (simp add: List.map_filter_simps blank_block_fails)
  next
    case False
    then show ?thesis
      using Cons by (simp add: List.map_filter_simps split: sum.splits)
  qed
qed

text \<open>
  Claim C7.  Parsing one block fails exactly when the block has no non-blank line or
  its first non-blank line, trimmed as the parser reads it, does not start with \<open>#\<close>.
  Loading a template file that exists never fails on a block: the result is the list
  of the blocks that parse, in order, the others being left out.
\<close>

theorem template_blocks_recoverable:
  "((\<exists>e. parse_rag_block block = Inl e) \<longleftrightarrow>
      (case nonblank_lines block of [] \<Rightarrow> True | l # ls \<Rightarrow> \<not> startswith l ''#'')) \<and>
   (files (case rag_path of None \<Rightarrow> dflt | Some p \<Rightarrow> if p = [] then dflt else p) = Some contents \<longrightarrow>
      load_rag_sections dflt files rag_path =
        Inr (List.map_filter
               (\<lambda>b. case parse_rag_block b of Inr sec \<Rightarrow> Some sec | Inl e \<Rightarrow> None)
               (re_split_blocks (strip contents))))"
proof (intro conjI impI)
  show "(\<exists>e. parse_rag_block block = Inl e) \<longleftrightarrow>
      (case nonblank_lines block of [] \<Rightarrow> True | l # ls \<Rightarrow> \<not> startswith l ''#'')"
    by (rule parse_rag_block_fails_iff)
next
  assume "files (case rag_path of None \<Rightarrow> dflt | Some p \<Rightarrow> if p = [] then dflt else p) = Some contents"
  then show "load_rag_sections dflt files rag_path =
        Inr (List.map_filter
               (\<lambda>b. case parse_rag_block b of Inr sec \<Rightarrow> Some sec | Inl e \<Rightarrow> None)
               (re_split_blocks (strip contents)))"
    by (simp add: load_rag_sections_def Let_def load_blocks_eq)
qed

theorem template_blocks_recoverable_witness:
  "(\<exists>e. parse_rag_block ''intro'' = Inl e) \<and>
   load_rag_sections ''rag.txt'' [''rag.txt'' \<mapsto> ''intro\<newline>#A\<newline>type: table''] None =
     Inr [\<lparr>name = ''A'', type' = ''table'', description = [], prompt = [], fields' = None\<rparr>]"
proof -
  let ?files = "[''rag.txt'' \<mapsto> ''intro\<newline>#A\<newline>type: table'']"
  note t = template_blocks_recoverable
    [where block = "''intro''" and files = ?files and rag_path = None and dflt = "''rag.txt''"
       and contents = "''intro\<newline>#A\<newline>type: table''"]
  have l: "nonblank_lines ''intro'' = [''intro'']"
    by code_simp
  have f: "(\<exists>e. parse_rag_block ''intro'' = Inl e)"
    using t [THEN conjunct1] by (simp add: l)
  have b: "List.map_filter
             (\<lambda>b. case parse_rag_block b of Inr sec \<Rightarrow> Some sec | Inl e \<Rightarrow> None)
             (re_split_blocks (strip ''intro\<newline>#A\<newline>type: table'')) =
           [\<lparr>name = ''A'', type' = ''table'', description = [], prompt = [], fields' = None\<rparr>]"
    by code_simp
  have "load_rag_sections ''rag.txt'' ?files None =
     Inr [\<lparr>name = ''A'', type' = ''table'', description = [], prompt = [], fields' = None\<rparr>]"
    using t [THEN conjunct2] by (simp add: b)
  with f show ?thesis by blast
qed

text \<open>
  Claim C9.  The fields of a parsed block are non-empty trimmed entries without a
  comma; they are the trimmed non-empty pieces between the commas of the value, taken
  inside the brackets when the value is bracketed.  The two example lines give
  \<open>["Name", "Type", "Description"]\<close> and \<open>["Name", "Type"]\<close>.
\<close>

theorem fields_parsed_as_trimmed_list:
  "(parse_rag_block block = Inr sec \<and> fields' sec = Some fs \<longrightarrow>
      (\<forall>e \<in> set fs. e \<noteq> [] \<and> strip e = e \<and> CHR '','' \<notin> set e)) \<and>
   parse_fields raw =
     filter (\<lambda>p. p \<noteq> [])
       (map strip (split_on CHR '','' (case bracketed raw of Some inner \<Rightarrow> inner | None \<Rightarrow> raw))) \<and>
   map_sum id fields' (parse_rag_block ''#T\<newline>fields: [Name, Type, Description]'') =
     Inr (Some [''Name'', ''Type'', ''Description'']) \<and>
   map_sum id fields' (parse_rag_block ''#T\<newline>fields: Name, Type'') =
     Inr (Some [''Name'', ''Type''])"
proof (intro conjI impI ballI)
  fix e
  assume a: "parse_rag_block block = Inr sec \<and> fields' sec = Some fs" and e: "e \<in> set fs"
  from a obtain raw' where "fs = parse_fields raw'"
    by (auto simp: parse_rag_block_def Let_def split: if_splits)
  with e have "e \<in> set (parse_fields raw')" by simp
  then have r: "e \<noteq> [] \<and> strip e = e \<and> CHR '','' \<notin> set e"
    by (rule parse_fields_entries)
  from r show "e \<noteq> []" by simp
  from r show "strip e = e" by simp
  from r show "CHR '','' \<notin> set e" by simp
next
  show "parse_fields raw =
     filter (\<lambda>p. p \<noteq> [])
       (map strip (split_on CHR '','' (case bracketed raw of Some inner \<Rightarrow> inner | None \<Rightarrow> raw)))"
    by (rule parse_fields_eq)
next
  show "map_sum id fields' (parse_rag_block ''#T\<newline>fields: [Name, Type, Description]'') =
     Inr (Some [''Name'', ''Type'', ''Description''])"
    by code_simp
next
  show "map_sum id fields' (parse_rag_block ''#T\<newline>fields: Name, Type'') =
     Inr (Some [''Name'', ''Type''])"
    by code_simp
qed

theorem fields_parsed_as_trimmed_list_witness:
  "parse_rag_block ''#T\<newline>fields: , Name,, Type '' =
     Inr \<lparr>name = ''T'', type' = ''text'', description = [], prompt = [],
          fields' = Some [''Name'', ''Type'']\<rparr> \<and>
   strip ''Name'' = ''Name'' \<and> strip ''Type'' = ''Type''"
proof -
  let ?sec = "\<lparr>name = ''T'', type' = ''text'', description = [], prompt = [],
          fields' = Some [''Name'', ''Type'']\<rparr>"
  have p: "parse_rag_block ''#T\<newline>fields: , Name,, Type '' = Inr ?sec"
    by code_simp
  have "\<forall>e \<in> set [''Name'', ''Type'']. e \<noteq> [] \<and> strip e = e \<and> CHR '','' \<notin> set e"
    using p fields_parsed_as_trimmed_list
      [where block = "''#T\<newline>fields: , Name,, Type ''" and sec = ?sec
         and fs = "[''Name'', ''Type'']", THEN conjunct1]
    by simp
  with p show ?thesis by simp
qed

section \<open>Properties of the document assembler\<close>

lemma chunk_lines_append:
  "pre = [] \<or> \<not> has_pipe (last pre) \<Longrightarrow>
   chunk_lines (pre @ xs) = chunk_lines pre @ chunk_lines xs"
proof (induction pre rule: chunk_lines.induct)
  case 1
  show ?case by simp
next
  case (2 l ls)
  let ?P = has_pipe
  show ?case
  proof (cases "?P l \<and> (ls \<noteq> [] \<and> ?P (hd ls))")
    case True
    then have ne: "ls \<noteq> []" by simp
    with 2(3) have nl: "\<not> ?P (last ls)" by simp
    have mem: "last ls \<in> set ls" using ne by simp
    have tw: "takeWhile ?P (ls @ xs) = takeWhile ?P ls"
      using mem nl by (rule takeWhile_append1)
    have dw: "dropWhile ?P (ls @ xs) = dropWhile ?P ls @ xs"
      using mem nl by (rule dropWhile_append1)
    have dne: "dropWhile ?P ls \<noteq> []"
      using mem nl by (auto simp: dropWhile_eq_Nil_conv)
    obtain a where a: "ls = a @ dropWhile ?P ls"
      by (metis takeWhile_dropWhile_id)
    have "last (dropWhile ?P ls) = last ls"
      using a dne by (metis last_appendR)
    with nl have "dropWhile ?P ls = [] \<or> \<not> ?P (last (dropWhile ?P ls))" by simp
    from 2(1) [OF True refl this]
    have ih: "chunk_lines (dropWhile ?P ls @ xs) = chunk_lines (dropWhile ?P ls) @ chunk_lines xs" .
    have hd: "hd (ls @ xs) = hd ls" using ne by simp
    have c1: "chunk_lines ((l # ls) @ xs) =
        (''table'', strip (join [LF] (l # takeWhile ?P ls))) # chunk_lines (dropWhile ?P ls @ xs)"
      using True hd by (simp add: tw dw Let_def)
    have c2: "chunk_lines (l # ls) =
        (''table'', strip (join [LF] (l # takeWhile ?P ls))) # chunk_lines (dropWhile ?P ls)"
      using True by (simp add: Let_def)
    show ?thesis unfolding c1 c2 ih by simp
  next
    case False
    show ?thesis
    proof (cases "ls = []")
      case True
      with 2(3) have "\<not> ?P l" by simp
      with True show ?thesis by simp
    next
      case ne: False
      with 2(3) have "ls = [] \<or> \<not> ?P (last ls)" by simp
      from 2(2) [OF False this]
      have ih: "chunk_lines (ls @ xs) = chunk_lines ls @ chunk_lines xs" .
      have hd: "hd (ls @ xs) = hd ls" using ne by simp
      have c1: "chunk_lines ((l # ls) @ xs) =
          (if strip l \<noteq> [] then [(''text'', strip l)] else []) @ chunk_lines (ls @ xs)"
        using False ne hd by auto
      have c2: "chunk_lines (l # ls) =
          (if strip l \<noteq> [] then [(''text'', strip l)] else []) @ chunk_lines ls"
        using False by auto
      show ?thesis unfolding c1 c2 ih by simp
    qed
  qed
qed

lemma chunk_lines_run:
  assumes "2 \<le> length run" and "\<forall>l \<in> set run. has_pipe l"
    and "post = [] \<or> \<not> has_pipe (hd post)"
  shows "chunk_lines (run @ post) = (''table'', strip (join [LF] run)) # chunk_lines post"
proof -
  let ?P = has_pipe
  from assms(1) obtain l l' ls where run: "run = l # l' # ls"
    by (cases run; cases "tl run") auto
  have twp: "takeWhile ?P post = []" and dwp: "dropWhile ?P post = post"
    using assms(3) by (cases post; simp)+
  have all: "\<forall>x \<in> set (l' # ls). ?P x" using assms(2) run by simp
  have tw: "takeWhile ?P ((l' # ls) @ post) = l' # ls"
    using all twp by simp
  have dw: "dropWhile ?P ((l' # ls) @ post) = post"
    using all dwp by simp
  have "?P l" "?P l'" using assms(2) run by simp_all
  then show ?thesis
    unfolding run using tw dw by (simp add: Let_def)
qed

lemma in_set_dropWhile: "x \<in> set s \<Longrightarrow> \<not> P x \<Longrightarrow> x \<in> set (dropWhile P s)"
  by (induction s) auto

lemma strip_keeps: "x \<in> set s \<Longrightarrow> \<not> is_space x \<Longrightarrow> x \<in> set (strip s)"
  by (simp add: strip_def in_set_dropWhile)

lemma has_pipe_mem: "has_pipe l \<longleftrightarrow> CHR ''|'' \<in> set l"
proof -
  have "has_pipe l \<longleftrightarrow> filter (\<lambda>x. x = CHR ''|'') l \<noteq> []"
    by (simp add: has_pipe_def count_char_def Suc_le_eq)
  also have "\<dots> \<longleftrightarrow> CHR ''|'' \<in> set l"
    by (simp add: filter_empty_conv)
  finally show ?thesis .
qed

lemma has_pipe_strip_nonempty: "has_pipe l \<Longrightarrow> strip l \<noteq> []"
proof -
  assume "has_pipe l"
  then have "CHR ''|'' \<in> set l" by (simp add: has_pipe_mem)
  moreover have "\<not> is_space CHR ''|''" by (simp add: is_space_def)
  ultimately have "CHR ''|'' \<in> set (strip l)" by (rule strip_keeps)
  then show ?thesis by auto
qed

lemma chunk_lines_lone:
  assumes "has_pipe l"
    and "post = [] \<or> \<not> has_pipe (hd post)"
  shows "chunk_lines (l # post) = (''text'', strip l) # chunk_lines post"
proof -
  have "\<not> (has_pipe l \<and> (post \<noteq> [] \<and> has_pipe (hd post)))"
    using assms(2) by blast
  then have "chunk_lines (l # post) =
      (if strip l \<noteq> [] then [(''text'', strip l)] else []) @ chunk_lines post"
    by (simp only: chunk_lines.simps if_False)
  then show ?thesis
    using has_pipe_strip_nonempty [OF assms(1)] by simp
qed

lemma row_cells_nonempty: "row_cells l \<noteq> []"
  by (simp add: row_cells_def split_on_nonempty)

lemma render_table_chunk:
  "render_chunk (''table'', md) =
     (let lines = table_md_lines md
      in if 2 \<le> length lines \<and> startswith (hd lines) ''|'' \<and>
            (\<forall>r \<in> set (tl lines). length (row_cells r) = length (row_cells (hd lines)))
         then [Table (row_cells (hd lines)) (map row_cells (tl lines))]
         else [Paragraph md])"
proof -
  let ?lines = "table_md_lines md"
  show ?thesis
  proof (cases "2 \<le> length ?lines")
    case False
    then show ?thesis
      by (simp add: render_chunk_def parse_markdown_table_def Let_def)
  next
    case True
    then obtain l0 l1 ls where l: "?lines = l0 # l1 # ls"
      by (cases ?lines; cases "tl ?lines") auto
    show ?thesis
      by (simp add: render_chunk_def parse_markdown_table_def Let_def l list_all_iff
          row_cells_nonempty)
  qed
qed

text \<open>
  Claim C5, as stated, fails in its last part: a run of delimiter lines whose rows all
  have the column count of the header is still rendered as a paragraph when its first
  line does not start with the delimiter.
\<close>

theorem table_without_leading_pipe_counterexample:
  "find_all_table_like_chunks ''a|b\<newline>c|d'' = [(''table'', ''a|b\<newline>c|d'')] \<and>
   length (row_cells ''c|d'') = length (row_cells ''a|b'') \<and>
   render_chunk (''table'', ''a|b\<newline>c|d'') = [Paragraph ''a|b\<newline>c|d'']"
  by code_simp

text \<open>
  Claim C5, amended.  A maximal run of two or more consecutive lines that each contain
  \<open>|\<close> becomes one \<open>table\<close> chunk made of these lines; a line containing \<open>|\<close> whose
  neighbours contain none becomes a \<open>text\<close> chunk.  A \<open>table\<close> chunk is rendered as a
  table, with the cells of its first line as columns and the cells of the other lines
  as rows, exactly when it has two non-blank lines or more, its first line starts with
  \<open>|\<close> and every other line has as many cells as the first; otherwise it is rendered
  as one paragraph.
\<close>

theorem table_blocks_classified:
  "(splitlines body = pre @ run @ post \<and> strip body \<noteq> [] \<and>
    (pre = [] \<or> \<not> has_pipe (last pre)) \<and> 2 \<le> length run \<and> (\<forall>l \<in> set run. has_pipe l) \<and>
    (post = [] \<or> \<not> has_pipe (hd post)) \<longrightarrow>
      find_all_table_like_chunks body =
        chunk_lines pre @ (''table'', strip (join [LF] run)) # chunk_lines post) \<and>
   (splitlines body = pre @ l # post \<and> strip body \<noteq> [] \<and>
    (pre = [] \<or> \<not> has_pipe (last pre)) \<and> has_pipe l \<and>
    (post = [] \<or> \<not> has_pipe (hd post)) \<longrightarrow>
      find_all_table_like_chunks body =
        chunk_lines pre @ (''text'', strip l) # chunk_lines post) \<and>
   render_chunk (''table'', md) =
     (let lines = table_md_lines md
      in if 2 \<le> length lines \<and> startswith (hd lines) ''|'' \<and>
            (\<forall>r \<in> set (tl lines). length (row_cells r) = length (row_cells (hd lines)))
         then [Table (row_cells (hd lines)) (map row_cells (tl lines))]
         else [Paragraph md])"
proof (intro conjI impI)
  assume a: "splitlines body = pre @ run @ post \<and> strip body \<noteq> [] \<and>
    (pre = [] \<or> \<not> has_pipe (last pre)) \<and> 2 \<le> length run \<and> (\<forall>l \<in> set run. has_pipe l) \<and>
    (post = [] \<or> \<not> has_pipe (hd post))"
  then have ne: "\<not> (body = [] \<or> strip body = [])"
    by (auto simp: strip_def)
  have "chunk_lines (pre @ run @ post) = chunk_lines pre @ chunk_lines (run @ post)"
    using a by (intro chunk_lines_append) simp
  also have "chunk_lines (run @ post) = (''table'', strip (join [LF] run)) # chunk_lines post"
    using a by (intro chunk_lines_run) simp_all
  finally show "find_all_table_like_chunks body =
        chunk_lines pre @ (''table'', strip (join [LF] run)) # chunk_lines post"
    using a ne by (simp add: find_all_table_like_chunks_def)
next
  assume a: "splitlines body = pre @ l # post \<and> strip body \<noteq> [] \<and>
    (pre = [] \<or> \<not> has_pipe (last pre)) \<and> has_pipe l \<and>
    (post = [] \<or> \<not> has_pipe (hd post))"
  then have ne: "\<not> (body = [] \<or> strip body = [])"
    by (auto simp: strip_def)
  have "chunk_lines (pre @ l # post) = chunk_lines pre @ chunk_lines (l # post)"
    using a by (intro chunk_lines_append) simp
  also have "chunk_lines (l # post) = (''text'', strip l) # chunk_lines post"
    using a by (intro chunk_lines_lone) simp_all
  finally show "find_all_table_like_chunks body =
        chunk_lines pre @ (''text'', strip l) # chunk_lines post"
    using a ne by (simp add: find_all_table_like_chunks_def)
next
  show "render_chunk (''table'', md) =
     (let lines = table_md_lines md
      in if 2 \<le> length lines \<and> startswith (hd lines) ''|'' \<and>
            (\<forall>r \<in> set (tl lines). length (row_cells r) = length (row_cells (hd lines)))
         then [Table (row_cells (hd lines)) (map row_cells (tl lines))]
         else [Paragraph md])"
    by (rule render_table_chunk)
qed

theorem table_blocks_classified_witness:
  "find_all_table_like_chunks ''intro\<newline>| a | b |\<newline>| 1 | 2 |\<newline>end'' =
     [(''text'', ''intro''), (''table'', ''| a | b |\<newline>| 1 | 2 |''), (''text'', ''end'')] \<and>
   find_all_table_like_chunks ''x\<newline>p|q\<newline>y'' =
     [(''text'', ''x''), (''text'', ''p|q''), (''text'', ''y'')] \<and>
   render_chunk (''table'', ''| a | b |\<newline>| 1 | 2 |'') = [Table [''a'', ''b''] [[''1'', ''2'']]]"
proof -
  let ?b1 = "''intro\<newline>| a | b |\<newline>| 1 | 2 |\<newline>end''"
  let ?run = "[''| a | b |'', ''| 1 | 2 |'']"
  have h1: "splitlines ?b1 = [''intro''] @ ?run @ [''end''] \<and> strip ?b1 \<noteq> [] \<and>
      ([''intro''] = [] \<or> \<not> has_pipe (last [''intro''])) \<and> 2 \<le> length ?run \<and>
      (has_pipe ''| a | b |'' \<and> has_pipe ''| 1 | 2 |'') \<and>
      ([''end''] = [] \<or> \<not> has_pipe (hd [''end'']))"
    by code_simp
  then have p1: "splitlines ?b1 = [''intro''] @ ?run @ [''end''] \<and> strip ?b1 \<noteq> [] \<and>
      ([''intro''] = [] \<or> \<not> has_pipe (last [''intro''])) \<and> 2 \<le> length ?run \<and>
      (\<forall>l \<in> set ?run. has_pipe l) \<and>
      ([''end''] = [] \<or> \<not> has_pipe (hd [''end'']))"
    by simp
  have e1: "chunk_lines [''intro''] @ (''table'', strip (join [LF] ?run)) # chunk_lines [''end''] =
      [(''text'', ''intro''), (''table'', ''| a | b |\<newline>| 1 | 2 |''), (''text'', ''end'')]"
    by code_simp
  have r1: "find_all_table_like_chunks ?b1 =
      [(''text'', ''intro''), (''table'', ''| a | b |\<newline>| 1 | 2 |''), (''text'', ''end'')]"
    using table_blocks_classified
      [where body = ?b1 and pre = "[''intro'']" and run = ?run and post = "[''end'']",
       THEN conjunct1, rule_format, OF p1]
    unfolding e1 .
  let ?b2 = "''x\<newline>p|q\<newline>y''"
  have p2: "splitlines ?b2 = [''x''] @ ''p|q'' # [''y''] \<and> strip ?b2 \<noteq> [] \<and>
      ([''x''] = [] \<or> \<not> has_pipe (last [''x''])) \<and> has_pipe ''p|q'' \<and>
      ([''y''] = [] \<or> \<not> has_pipe (hd [''y'']))"
    by code_simp
  have e2: "chunk_lines [''x''] @ (''text'', strip ''p|q'') # chunk_lines [''y''] =
      [(''text'', ''x''), (''text'', ''p|q''), (''text'', ''y'')]"
    by code_simp
  have r2: "find_all_table_like_chunks ?b2 =
      [(''text'', ''x''), (''text'', ''p|q''), (''text'', ''y'')]"
    using table_blocks_classified
      [where body = ?b2 and pre = "[''x'']" and l = "''p|q''" and post = "[''y'']",
       THEN conjunct2, THEN conjunct1, rule_format, OF p2]
    unfolding e2 .
  have e3: "(let lines = table_md_lines ''| a | b |\<newline>| 1 | 2 |''
      in if 2 \<le> length lines \<and> startswith (hd lines) ''|'' \<and>
            (\<forall>r \<in> set (tl lines). length (row_cells r) = length (row_cells (hd lines)))
         then [Table (row_cells (hd lines)) (map row_cells (tl lines))]
         else [Paragraph ''| a | b |\<newline>| 1 | 2 |'']) = [Table [''a'', ''b''] [[''1'', ''2'']]]"
    by code_simp
  have r3: "render_chunk (''table'', ''| a | b |\<newline>| 1 | 2 |'') =
      [Table [''a'', ''b''] [[''1'', ''2'']]]"
    using table_blocks_classified
      [where md = "''| a | b |\<newline>| 1 | 2 |''", THEN conjunct2, THEN conjunct2]
    unfolding e3 .
  from r1 r2 r3 show ?thesis by blast
qed

end
